theory Spec2Isabelle
  imports Complex_Main
begin

section \<open>Values, errors and blocks\<close>

text \<open>
  The generator of \<^verbatim>\<open>src/problems/interruption_swap_recall.py\<close> works on
  3-axis arrays \<^verbatim>\<open>[batch, time, bits]\<close>. A block is a nested list: the outer list
  runs over the batch, the middle list over the time-steps, the inner list over the bits.
  The entries are 0/1 values, kept as integers.

  A Python number is either an \<^verbatim>\<open>int\<close> or a \<^verbatim>\<open>float\<close>; numpy treats the two
  differently (see \<open>rotation_offset\<close>), so the rotation parameter keeps its tag. A float is
  idealised as the real number it denotes: products are exact, and NaN appears only as
  the error it leads to. Integers are unbounded; the 64-bit range of numpy's integers is
  not modelled.

  A nested list records the size of an axis only through its elements, so a block with no
  batch element has no time axis and a block with no time-step has no width. The
  generator needs at least one batch element and one time-step per sub-sequence to return
  anything, and the properties below assume them where a size matters.
\<close>

datatype error = AssertionError | ValueError | IndexError | RuntimeError

datatype pynum = PyInt int | PyFloat real

type_synonym block = "int list list list"

fun pyval :: "pynum \<Rightarrow> real" where
  "pyval (PyInt k) = of_int k"
| "pyval (PyFloat x) = x"

section \<open>The Rotator\<close>

text \<open>
  \<^verbatim>\<open>np.round\<close> rounds to the nearest integer and a tie to the even neighbour.
\<close>

definition np_round :: "real \<Rightarrow> int" where
  "np_round x =
     (let f = \<lfloor>x\<rfloor>; d = x - of_int f
      in if d < 1 / 2 then f
         else if 1 / 2 < d then f + 1
         else if even f then f else f + 1)"

text \<open>
  Lines 14 to 19 of \<^verbatim>\<open>rotate\<close>:
  \<^verbatim>\<open>
    if -1 <= rotation <= 1:
        rotation = rotation * seq_length
    rotation = np.round(rotation)
    rotation = int(rotation % seq_length)
  \<close>
  For an \<^verbatim>\<open>int\<close> rotation every intermediate value is an integer: \<^verbatim>\<open>np.round\<close>
  returns a numpy integer, and the remainder of a numpy integer by 0 is 0 (numpy warns and
  goes on). For a \<^verbatim>\<open>float\<close> rotation \<^verbatim>\<open>np.round\<close> returns a numpy float, its
  remainder by 0 is NaN, and \<^verbatim>\<open>int(NaN)\<close> raises \<^verbatim>\<open>ValueError\<close>. For a
  non-zero length both remainders are Python's floored one, which is \<open>mod\<close> on \<open>int\<close>.
\<close>

fun rotation_offset :: "pynum \<Rightarrow> int \<Rightarrow> error + int" where
  "rotation_offset (PyInt k) seq_length =
     (let r = (if -1 \<le> k \<and> k \<le> 1 then k * seq_length else k)
      in if seq_length = 0 then Inr 0 else Inr (r mod seq_length))"
| "rotation_offset (PyFloat x) seq_length =
     (let r = (if -1 \<le> x \<and> x \<le> 1 then x * of_int seq_length else x)
      in if seq_length = 0 then Inl ValueError else Inr (np_round r mod seq_length))"

text \<open>
  Python slices \<^verbatim>\<open>xs[k:]\<close> and \<^verbatim>\<open>xs[:k]\<close>: a negative bound counts from the end, and
  every bound is clipped to the list.
\<close>

definition slice_bound :: "int \<Rightarrow> nat \<Rightarrow> nat" where
  "slice_bound k n = (if k < 0 then nat (max 0 (int n + k)) else min (nat k) n)"

definition slice_from :: "int \<Rightarrow> 'a list \<Rightarrow> 'a list" where
  "slice_from k xs = drop (slice_bound k (length xs)) xs"

definition slice_to :: "int \<Rightarrow> 'a list \<Rightarrow> 'a list" where
  "slice_to k xs = take (slice_bound k (length xs)) xs"

text \<open>
  Line 21: \<^verbatim>\<open>np.concatenate((seq[:, rotation:, :], seq[:, :rotation, :]), axis=1)\<close>.
  Both slices come from the same array, so the concatenation along the time axis cannot
  fail; it is done for each batch element.
\<close>

definition rotate :: "block \<Rightarrow> pynum \<Rightarrow> int \<Rightarrow> error + block" where
  "rotate seq rotation seq_length =
     (case rotation_offset rotation seq_length of
        Inl e \<Rightarrow> Inl e
      | Inr r \<Rightarrow> Inr (map (\<lambda>row. slice_from r row @ slice_to r row) seq))"

section \<open>The problem class and its random source\<close>

text \<open>
  The parameters \<^verbatim>\<open>__init__\<close> reads from the dictionary (lines 39 to 56). The two
  assertions are its only checks.
\<close>

record params =
  batch_size :: int
  control_bits :: int
  data_bits :: int
  min_sequence_length :: int
  max_sequence_length :: int
  num_subseq_min :: int
  num_subseq_max :: int
  bias :: real
  num_rotation :: pynum

definition init :: "params \<Rightarrow> error + params" where
  "init p =
     (if \<not> 3 \<le> control_bits p then Inl AssertionError
      else if \<not> 1 \<le> data_bits p then Inl AssertionError
      else Inr p)"

text \<open>
  The process-wide random source of numpy is made explicit: one number for the count of
  sub-sequences, one per sub-sequence length, one coin per generated bit. The samplers
  keep the argument checks of numpy: \<^verbatim>\<open>randint\<close> raises \<^verbatim>\<open>ValueError\<close> when
  \<^verbatim>\<open>low >= high\<close> (unless no sample is taken) and on a negative size;
  \<^verbatim>\<open>binomial\<close> raises \<^verbatim>\<open>ValueError\<close> when \<^verbatim>\<open>p\<close> is outside [0, 1] and on a
  negative dimension.
\<close>

record draws =
  draw_count :: nat
  draw_len_a :: "nat \<Rightarrow> nat"
  draw_len_b :: "nat \<Rightarrow> nat"
  draw_x :: "nat \<Rightarrow> nat \<Rightarrow> nat \<Rightarrow> nat \<Rightarrow> bool"
  draw_y :: "nat \<Rightarrow> nat \<Rightarrow> nat \<Rightarrow> nat \<Rightarrow> bool"

definition randint :: "int \<Rightarrow> int \<Rightarrow> nat \<Rightarrow> error + int" where
  "randint low high e =
     (if high \<le> low then Inl ValueError else Inr (low + int e mod (high - low)))"

definition randint_array :: "int \<Rightarrow> int \<Rightarrow> int \<Rightarrow> (nat \<Rightarrow> nat) \<Rightarrow> error + int list" where
  "randint_array low high sz es =
     (if sz < 0 then Inl ValueError
      else if sz = 0 then Inr []
      else if high \<le> low then Inl ValueError
      else Inr (map (\<lambda>i. low + int (es i) mod (high - low)) [0..<nat sz]))"

definition binomial :: "real \<Rightarrow> int \<Rightarrow> int \<Rightarrow> int \<Rightarrow> (nat \<Rightarrow> nat \<Rightarrow> nat \<Rightarrow> bool) \<Rightarrow> error + block" where
  "binomial pr B T D e =
     (if pr < 0 \<or> 1 < pr then Inl ValueError
      else if B < 0 \<or> T < 0 \<or> D < 0 then Inl ValueError
      else Inr (map (\<lambda>b. map (\<lambda>t. map (\<lambda>d.
                  if pr = 0 then 0 else if pr = 1 then 1 else if e b t d then 1 else 0)
                [0..<nat D]) [0..<nat T]) [0..<nat B]))"

text \<open>A list comprehension whose body may raise stops at the first error.\<close>

fun collect :: "('e + 'a) list \<Rightarrow> 'e + 'a list" where
  "collect [] = Inr []"
| "collect (r # rs) =
     (case r of
        Inl e \<Rightarrow> Inl e
      | Inr v \<Rightarrow> (case collect rs of Inl e \<Rightarrow> Inl e | Inr vs \<Rightarrow> Inr (v # vs)))"

section \<open>Array operations\<close>

text \<open>
  \<^verbatim>\<open>np.concatenate(parts, axis=1)\<close> raises \<^verbatim>\<open>ValueError\<close> on an empty list. All the
  parts \<^verbatim>\<open>generate_batch\<close> joins are built with the same batch size and width, so the
  shape check of numpy cannot fail there and is left out.
\<close>

fun concat_time :: "block list \<Rightarrow> block" where
  "concat_time [] = []"
| "concat_time [b] = b"
| "concat_time (b # bs) = map2 (@) b (concat_time bs)"

definition concatenate :: "block list \<Rightarrow> error + block" where
  "concatenate parts = (if parts = [] then Inl ValueError else Inr (concat_time parts))"

definition zeros :: "int \<Rightarrow> int \<Rightarrow> int \<Rightarrow> block" where
  "zeros B T D = replicate (nat B) (replicate (nat T) (replicate (nat D) 0))"

definition zeros_like :: "block \<Rightarrow> block" where
  "zeros_like seq = map (map (map (\<lambda>_. 0))) seq"

section \<open>The Channel Encoder\<close>

text \<open>
  Modelled from the spec: \<^verbatim>\<open>add_ctrl\<close> of the module \<^verbatim>\<open>utils\<close>, which is not among
  the sources. Section 4.1: it "concatenates \<^verbatim>\<open>control_pattern\<close> (broadcast over batch and
  time) onto \<^verbatim>\<open>data_block\<close> along the bit axis at \<^verbatim>\<open>insertion_point\<close>". The caller
  passes \<^verbatim>\<open>pos = [0, 0, 0]\<close>, position 0 for each of the three control values, which
  makes the control channel the leading slice, as the glossary says.
\<close>

definition add_ctrl :: "block \<Rightarrow> int list \<Rightarrow> nat \<Rightarrow> block" where
  "add_ctrl seq ctrl pos = map (map (\<lambda>row. take pos row @ ctrl @ drop pos row)) seq"

text \<open>
  Modelled from the spec: \<^verbatim>\<open>augment\<close> of the module \<^verbatim>\<open>utils\<close>, which is not among
  the sources. Section 4.1: it returns "(a) a leading marker row tagged with
  \<^verbatim>\<open>ctrl_start\<close> (only if \<^verbatim>\<open>add_marker_data\<close> is true), (b) the original data block
  tagged with the DATA marker, and (c) a trailing dummy block of the same length, shape,
  and batch size, zero-filled in the data bits and tagged with the DUMMY marker". The
  caller treats the result as a Python list whose last element is the dummy block.
  The markers are the triple \<^verbatim>\<open>(ctrl_data, ctrl_dummy, pos)\<close> the caller passes.
\<close>

definition marker_row :: "block \<Rightarrow> block" where
  "marker_row seq =
     map (\<lambda>rows. [replicate (case rows of [] \<Rightarrow> 0 | row # _ \<Rightarrow> length row) 0]) seq"

definition augment :: "block \<Rightarrow> int list \<times> int list \<times> nat \<Rightarrow> int list \<Rightarrow> bool \<Rightarrow> block list" where
  "augment seq markers ctrl_start add_marker_data =
     (case markers of (ctrl_data, ctrl_dummy, pos) \<Rightarrow>
        (if add_marker_data then [add_ctrl (marker_row seq) ctrl_start pos] else [])
        @ [add_ctrl seq ctrl_data pos, add_ctrl (zeros_like seq) ctrl_dummy pos])"

section \<open>The Episode Assembler\<close>

text \<open>The control channel markers of lines 70 to 76 and 101 to 102.\<close>

definition pos :: nat where
  "pos = 0"

definition ctrl_data :: "int list" where
  "ctrl_data = [0, 0, 0]"

definition ctrl_dummy :: "int list" where
  "ctrl_dummy = [0, 0, 1]"

definition ctrl_inter :: "int list" where
  "ctrl_inter = [1, 1, 0]"

definition markers :: "int list \<times> int list \<times> nat" where
  "markers = (ctrl_data, ctrl_dummy, pos)"

definition ctrl_xy :: "int list" where
  "ctrl_xy = (map (\<lambda>_. 0) ctrl_data)[1 := 1]"

text \<open>
  Lines 79 to 88: the number of sub-sequences, their lengths, and the bit blocks
  \<^verbatim>\<open>x\<close> and \<^verbatim>\<open>y\<close>, one per drawn length.
\<close>

definition sample_blocks :: "params \<Rightarrow> int list \<Rightarrow> (nat \<Rightarrow> nat \<Rightarrow> nat \<Rightarrow> nat \<Rightarrow> bool) \<Rightarrow> error + block list" where
  "sample_blocks p lens e =
     collect (map (\<lambda>(i, n). binomial (bias p) (batch_size p) n (data_bits p) (e i))
                  (enumerate 0 lens))"

definition sample_subsequences :: "params \<Rightarrow> draws \<Rightarrow> error + block list \<times> block list" where
  "sample_subsequences p d =
     (case randint (num_subseq_min p) (num_subseq_max p + 1) (draw_count d) of
        Inl e \<Rightarrow> Inl e
      | Inr nb_sub_seq \<Rightarrow>
     (case randint_array (min_sequence_length p) (max_sequence_length p + 1) nb_sub_seq
             (draw_len_a d) of
        Inl e \<Rightarrow> Inl e
      | Inr seq_lengths_a \<Rightarrow>
     (case randint_array (min_sequence_length p) (max_sequence_length p + 1) nb_sub_seq
             (draw_len_b d) of
        Inl e \<Rightarrow> Inl e
      | Inr seq_lengths_b \<Rightarrow>
     (case sample_blocks p seq_lengths_a (draw_x d) of
        Inl e \<Rightarrow> Inl e
      | Inr x \<Rightarrow>
     (case sample_blocks p seq_lengths_b (draw_y d) of
        Inl e \<Rightarrow> Inl e
      | Inr y \<Rightarrow> Inr (x, y))))))"

text \<open>\<^verbatim>\<open>b[0].shape[1]\<close>, the length of the time axis.\<close>

definition time_len :: "block \<Rightarrow> int" where
  "time_len seq = (case seq of [] \<Rightarrow> 0 | rows # _ \<Rightarrow> int (length rows))"

text \<open>
  The body of the comprehension of line 107 for one pair \<^verbatim>\<open>(a, b)\<close>:
  \<^verbatim>\<open>a[:-1] + [inter_xy] + [rotate(b[0], self.rotation, b[0].shape[1])] + [b[1]]\<close>.
\<close>

definition interleave :: "block \<Rightarrow> pynum \<Rightarrow> block list \<Rightarrow> block list \<Rightarrow> error + block list" where
  "interleave inter_xy rotation a b =
     (case b of
        [] \<Rightarrow> Inl IndexError
      | b0 # bs \<Rightarrow>
          (case rotate b0 rotation (time_len b0) of
             Inl e \<Rightarrow> Inl e
           | Inr rotated \<Rightarrow>
               (case bs of
                  [] \<Rightarrow> Inl IndexError
                | b1 # _ \<Rightarrow> Inr (butlast a @ [inter_xy] @ [rotated] @ [b1]))))"

text \<open>Line 110 for one \<^verbatim>\<open>a\<close>: \<^verbatim>\<open>a[-1][:, 1:, :]\<close>.\<close>

definition recall_part :: "block list \<Rightarrow> error + block" where
  "recall_part a = (case a of [] \<Rightarrow> Inl IndexError | _ \<Rightarrow> Inr (map (slice_from 1) (last a)))"

text \<open>Lines 91 to 113: the target and the raw input tensor.\<close>

definition assemble :: "params \<Rightarrow> block list \<Rightarrow> block list \<Rightarrow> error + block \<times> block" where
  "assemble p x y =
     (case concatenate (y @ x) of
        Inl e \<Rightarrow> Inl e
      | Inr target \<Rightarrow>
     (let xx = map (\<lambda>seq. augment seq markers [1, 0, 0] True) x;
          yy = map (\<lambda>seq. augment seq markers [0, 1, 0] False) y;
          inter_seq = add_ctrl (zeros (batch_size p) 1 (data_bits p)) ctrl_inter pos;
          inter_xy = add_ctrl (zeros (batch_size p) 1 (data_bits p)) ctrl_xy pos
      in
     (case collect (map (\<lambda>(a, b). interleave inter_xy (num_rotation p) a b) (zip xx yy)) of
        Inl e \<Rightarrow> Inl e
      | Inr data_1 \<Rightarrow>
     (case collect (map recall_part xx) of
        Inl e \<Rightarrow> Inl e
      | Inr data_2 \<Rightarrow>
     (case concatenate (concat data_1 @ [inter_seq] @ data_2) of
        Inl e \<Rightarrow> Inl e
      | Inr inputs \<Rightarrow> Inr (inputs, target))))))"

section \<open>The Mask/Target Reconciler\<close>

text \<open>
  Lines 120 to 123, for one time-step of one batch element:
  \<^verbatim>\<open>
    mask_all = inputs[:, :, 0:self.control_bits] == 1
    mask = mask_all[..., 0]
    for i in range(self.control_bits):
        mask = mask_all[..., i] * mask
  \<close>
  Indexing the last axis at a position the slice does not have raises
  \<^verbatim>\<open>IndexError\<close>.
\<close>

definition mask_row :: "int \<Rightarrow> int list \<Rightarrow> error + bool" where
  "mask_row cb row =
     (let mask_all = map (\<lambda>v. v = 1) (slice_to cb row)
      in if mask_all = [] then Inl IndexError
         else if int (length mask_all) < cb then Inl IndexError
         else Inr (foldl (\<lambda>msk i. mask_all ! i \<and> msk) (mask_all ! 0) [0..<nat cb]))"

definition compute_mask :: "int \<Rightarrow> block \<Rightarrow> error + bool list list" where
  "compute_mask cb inputs = collect (map (\<lambda>rows. collect (map (mask_row cb) rows)) inputs)"

text \<open>
  Line 126, for one batch element: \<^verbatim>\<open>inputs[:, mask[0], 0:self.control_bits] = 0\<close>.
\<close>

fun reset_ctrl :: "int \<Rightarrow> bool list \<Rightarrow> int list list \<Rightarrow> int list list" where
  "reset_ctrl cb (m # ms) (row # rows) =
     (if m then replicate (slice_bound cb (length row)) 0 @ slice_from cb row else row)
       # reset_ctrl cb ms rows"
| "reset_ctrl cb _ rows = rows"

text \<open>
  Line 130: \<^verbatim>\<open>target_with_dummies[:, mask[0], :] = target\<close>. The value is broadcast to
  the selected region: along each axis its size is the size of the region or 1.
  Otherwise the assignment raises \<^verbatim>\<open>RuntimeError\<close>.
\<close>

definition bcast :: "nat \<Rightarrow> 'a list \<Rightarrow> 'a list option" where
  "bcast n xs =
     (if length xs = n then Some xs
      else if length xs = 1 then Some (replicate n (hd xs))
      else None)"

fun scatter_rows :: "bool list \<Rightarrow> int list list \<Rightarrow> int list list \<Rightarrow> int list list option" where
  "scatter_rows (m # ms) (row # rows) vs =
     (if m then
        (case vs of
           [] \<Rightarrow> None
         | v # vs' \<Rightarrow>
             (case bcast (length row) v of
                None \<Rightarrow> None
              | Some w \<Rightarrow> map_option ((#) w) (scatter_rows ms rows vs')))
      else map_option ((#) row) (scatter_rows ms rows vs))"
| "scatter_rows _ rows vs = Some rows"

definition scatter :: "bool list \<Rightarrow> block \<Rightarrow> block \<Rightarrow> error + block" where
  "scatter mask0 buf target =
     (case bcast (length buf) target of
        None \<Rightarrow> Inl RuntimeError
      | Some tb \<Rightarrow>
          collect (map (\<lambda>(rows, vals).
                     (case bcast (length (filter id mask0)) vals of
                        None \<Rightarrow> Inl RuntimeError
                      | Some vs \<Rightarrow>
                          (case scatter_rows mask0 rows vs of
                             None \<Rightarrow> Inl RuntimeError
                           | Some out \<Rightarrow> Inr out)))
                   (zip buf tb)))"

text \<open>Lines 120 to 132: the mask, the reset of the control channel and the targets.\<close>

definition reconcile :: "int \<Rightarrow> block \<Rightarrow> block \<Rightarrow> error + block \<times> block \<times> bool list list" where
  "reconcile cb inputs_raw target =
     (case compute_mask cb inputs_raw of
        Inl e \<Rightarrow> Inl e
      | Inr msk \<Rightarrow>
     (case msk of
        [] \<Rightarrow> Inl IndexError
      | mask0 # _ \<Rightarrow>
     (let inputs = map (reset_ctrl cb mask0) inputs_raw;
          target_with_dummies = zeros_like (map (map (slice_from cb)) inputs)
      in
     (case scatter mask0 target_with_dummies target of
        Inl e \<Rightarrow> Inl e
      | Inr targets \<Rightarrow> Inr (inputs, targets, msk)))))"

definition generate_batch :: "params \<Rightarrow> draws \<Rightarrow> error + block \<times> block \<times> bool list list" where
  "generate_batch p d =
     (case sample_subsequences p d of
        Inl e \<Rightarrow> Inl e
      | Inr (x, y) \<Rightarrow>
     (case assemble p x y of
        Inl e \<Rightarrow> Inl e
      | Inr (inputs_raw, target) \<Rightarrow> reconcile (control_bits p) inputs_raw target))"

text \<open>A block has the shape \<^verbatim>\<open>[B, T, D]\<close>.\<close>

definition has_shape :: "nat \<Rightarrow> nat \<Rightarrow> nat \<Rightarrow> block \<Rightarrow> bool" where
  "has_shape B T D seq \<longleftrightarrow>
     length seq = B \<and> (\<forall>rows \<in> set seq. length rows = T \<and> (\<forall>row \<in> set rows. length row = D))"


text \<open>
  The control patterns the assembler writes: the two start markers, DATA, DUMMY, the
  marker between the two phases and the marker between \<^verbatim>\<open>x\<close> and \<^verbatim>\<open>y\<close>. A block
  is marked when each of its time-steps begins with one of them.
\<close>

definition control_patterns :: "int list set" where
  "control_patterns = {[1, 0, 0], [0, 1, 0], ctrl_data, ctrl_dummy, ctrl_inter, ctrl_xy}"

definition marked :: "block \<Rightarrow> bool" where
  "marked seq \<longleftrightarrow> (\<forall>rows \<in> set seq. \<forall>row \<in> set rows. take 3 row \<in> control_patterns)"

section \<open>The test of the module\<close>

text \<open>
  Lines 139 to 146: the parameters of the \<^verbatim>\<open>__main__\<close> block, and the first batch of a
  freshly built problem, \<^verbatim>\<open>InterruptionSwapRecall(params)\<close> followed by one call of
  \<^verbatim>\<open>generate_batch\<close>.
\<close>

definition main_params :: params where
  "main_params =
     \<lparr>batch_size = 1, control_bits = 3, data_bits = 8, min_sequence_length = 1,
      max_sequence_length = 10, num_subseq_min = 1, num_subseq_max = 4, bias = 1 / 2,
      num_rotation = PyFloat (1 / 2)\<rparr>"

definition first_batch :: "params \<Rightarrow> draws \<Rightarrow> error + block \<times> block \<times> bool list list" where
  "first_batch p d = (case init p of Inl e \<Rightarrow> Inl e | Inr q \<Rightarrow> generate_batch q d)"

text \<open>
  One outcome of the random source: one pair of sub-sequences, \<^verbatim>\<open>x\<close> of length 1 and
  \<^verbatim>\<open>y\<close> of length 2, with bits that differ from one batch element to the next.
\<close>

definition example_draws :: draws where
  "example_draws =
     \<lparr>draw_count = 0, draw_len_a = (\<lambda>i. 0), draw_len_b = (\<lambda>i. 1),
      draw_x = (\<lambda>i b t d. even (b + d)), draw_y = (\<lambda>i b t d. t = b)\<rparr>"

text \<open>The five ways section 7 of the specification calls a configuration invalid.\<close>

definition invalid_config :: "params \<Rightarrow> bool" where
  "invalid_config p \<longleftrightarrow>
     control_bits p < 3 \<or> data_bits p < 1
     \<or> max_sequence_length p < min_sequence_length p
     \<or> num_subseq_max p < num_subseq_min p
     \<or> bias p < 0 \<or> 1 < bias p"

text \<open>
  A valid configuration, as the contract of section 4.3 of the specification has it, with
  at least one element in the batch.
\<close>

definition valid_config :: "params \<Rightarrow> bool" where
  "valid_config p \<longleftrightarrow>
     1 \<le> batch_size p \<and> 3 \<le> control_bits p \<and> 1 \<le> data_bits p
     \<and> 1 \<le> min_sequence_length p \<and> min_sequence_length p \<le> max_sequence_length p
     \<and> 1 \<le> num_subseq_min p \<and> num_subseq_min p \<le> num_subseq_max p
     \<and> 0 \<le> bias p \<and> bias p \<le> 1"

section \<open>The right shift of the specification\<close>

text \<open>
  The shift as the comments of \<^verbatim>\<open>rotate\<close> and the specification word it: a shift to
  the right, where output time-step \<open>t\<close> is input time-step \<open>(t - offset) mod L\<close>.
\<close>

definition spec_right_shift :: "int \<Rightarrow> 'a list \<Rightarrow> 'a list" where
  "spec_right_shift off row =
     map (\<lambda>t. row ! nat ((int t - off) mod int (length row))) [0..<length row]"

section \<open>Properties of the Rotator\<close>

lemma rotation_offset_range:
  assumes "0 < L" and "rotation_offset p L = Inr r"
  shows "0 \<le> r \<and> r < L"
  using assms by (cases p) (auto simp: Let_def split: if_splits)

lemma rotate_row_nth:
  assumes "0 \<le> r" and "nat r \<le> length row" and "t < length row"
  shows "(slice_from r row @ slice_to r row) ! t = row ! ((t + nat r) mod length row)"
proof (cases "t < length row - nat r")
  case True
  then have "(t + nat r) mod length row = nat r + t" by simp
  with True assms show ?thesis
    by (simp add: slice_from_def slice_to_def slice_bound_def nth_append min_def add.commute)
next
  case False
  with assms have "length row \<le> t + nat r" "t + nat r - length row < length row"
    by simp_all
  then have "(t + nat r) mod length row = t + nat r - length row"
    by (simp add: le_mod_geq)
  moreover have "t - (length row - nat r) = t + nat r - length row"
    using False assms by simp
  moreover have "slice_from r row = drop (nat r) row" "slice_to r row = take (nat r) row"
    using assms by (simp_all add: slice_from_def slice_to_def slice_bound_def)
  ultimately show ?thesis using False assms
    by (simp add: nth_append)
qed

text \<open>
  What \<^verbatim>\<open>rotate\<close> computes on a block whose time axis has length \<open>L\<close>: output
  time-step \<open>t\<close> is input time-step \<open>(t + offset) mod L\<close>, a circular shift to the left.
\<close>

lemma rotate_shifts_left:
  assumes "0 < L" and "\<forall>row \<in> set seq. int (length row) = L"
    and "rotation_offset p L = Inr r" and "b < length seq" and "int t < L"
  shows "\<exists>out. rotate seq p L = Inr out \<and> out ! b ! t = seq ! b ! nat ((int t + r) mod L)"
proof -
  from assms(1,3) have rr: "0 \<le> r" "r < L" using rotation_offset_range by blast+
  from assms(2,4) have len: "int (length (seq ! b)) = L" by simp
  have "(slice_from r (seq ! b) @ slice_to r (seq ! b)) ! t
          = seq ! b ! ((t + nat r) mod length (seq ! b))"
    by (rule rotate_row_nth) (use rr len assms(5) in auto)
  moreover have "nat ((int t + r) mod L) = (t + nat r) mod length (seq ! b)"
  proof -
    have "int t + r = int (t + nat r)" using rr by simp
    then have "nat ((int t + r) mod int (length (seq ! b))) = (t + nat r) mod length (seq ! b)"
      by (simp only: flip: zmod_int nat_int)
    then show ?thesis by (simp only: len)
  qed
  ultimately show ?thesis using assms(3,4) by (simp add: rotate_def)
qed

lemma np_round_of_int [simp]: "np_round (of_int k) = k"
  by (simp add: np_round_def)


text \<open>
  Claim C1. The claim: for a block of shape [batch, L, bits] with L >= 1, rotate is a right
  circular shift, output time-step t being input time-step (t - offset) mod L. The code
  concatenates \<^verbatim>\<open>seq[:, offset:, :]\<close> before \<^verbatim>\<open>seq[:, :offset, :]\<close>, which shifts to the
  left (lemma \<open>rotate_shifts_left\<close>): on the block with the three time-steps
  [1,0], [0,1], [0,0] and the rotation 2 it returns [0,0], [1,0], [0,1], where the right
  shift by 2 is [0,1], [0,0], [1,0].
\<close>

theorem rotate_by_two_is_left_shift:
  "rotate [[[1, 0], [0, 1], [0, 0]]] (PyInt 2) 3 = Inr [[[0, 0], [1, 0], [0, 1]]]
   \<and> rotation_offset (PyInt 2) 3 = Inr 2
   \<and> map (spec_right_shift 2) [[[1, 0], [0, 1], [0, 0 :: int]]] = [[[0, 1], [0, 0], [1, 0]]]"
  by (simp add: rotate_def slice_from_def slice_to_def slice_bound_def spec_right_shift_def
      upt_conv_Cons)

text \<open>
  Claim C6. For every block, every length L >= 1, every rotation value r with
  -1 <= r <= 1 (relative mode) and every rotation value a outside [-1, 1] (absolute mode)
  such that round(r * L) = round(a), rotate(block, r, L) equals rotate(block, a, L).
\<close>

theorem rotate_relative_absolute_agree:
  assumes "1 \<le> L" and "-1 \<le> pyval r" and "pyval r \<le> 1"
    and "pyval a < -1 \<or> 1 < pyval a"
    and "np_round (pyval r * of_int L) = np_round (pyval a)"
  shows "rotate seq r L = rotate seq a L"
proof -
  have L: "L \<noteq> 0" using assms(1) by simp
  have r: "rotation_offset r L = Inr (np_round (pyval r * of_int L) mod L)"
  proof (cases r)
    case (PyInt k)
    have "np_round (of_int (k * L)) = k * L" by (rule np_round_of_int)
    then have "np_round (real_of_int k * real_of_int L) = k * L" by simp
    with PyInt assms(2,3) L show ?thesis by simp
  next
    case (PyFloat x)
    with assms(2,3) L show ?thesis by simp
  qed
  have a: "rotation_offset a L = Inr (np_round (pyval a) mod L)"
  proof (cases a)
    case (PyInt k)
    with assms(4) L show ?thesis by auto
  next
    case (PyFloat x)
    with assms(4) L show ?thesis by auto
  qed
  from r a assms(5) show ?thesis by (simp add: rotate_def)
qed

theorem rotate_relative_absolute_agree_witness:
  "rotate [[[1], [0], [0], [0]]] (PyFloat (1 / 2)) 4 = rotate [[[1], [0], [0], [0]]] (PyInt 2) 4
   \<and> rotate [[[1], [0], [0], [0]]] (PyInt 2) 4 = Inr [[[0], [0], [1], [0]]]"
proof -
  have "np_round (pyval (PyFloat (1 / 2)) * of_int 4) = np_round (pyval (PyInt 2))"
    by (simp add: np_round_def)
  then have "rotate [[[1], [0], [0], [0]]] (PyFloat (1 / 2)) 4
               = rotate [[[1], [0], [0], [0]]] (PyInt 2) 4"
    by (intro rotate_relative_absolute_agree) simp_all
  moreover have "rotate [[[1], [0], [0], [0]]] (PyInt 2) 4 = Inr [[[0], [0], [1], [0]]]"
    by (simp add: rotate_def slice_from_def slice_to_def slice_bound_def)
  ultimately show ?thesis by simp
qed





section \<open>Properties of the Mask/Target Reconciler\<close>



lemma mask_fold:
  "foldl (\<lambda>msk i. ma ! i \<and> msk) a [0..<k] = (a \<and> (\<forall>i<k. ma ! i))"
  by (induction k) (auto simp: less_Suc_eq)

lemma mask_row_all_ones:
  assumes "1 \<le> cb" and "mask_row cb row = Inr m"
  shows "nat cb \<le> length row \<and> m = (\<forall>i < nat cb. row ! i = 1)"
proof -
  have st: "slice_to cb row = take (nat cb) row"
    using assms(1) by (simp add: slice_to_def slice_bound_def min_def)
  from assms have len: "nat cb \<le> length row"
    by (auto simp: mask_row_def st Let_def min_def split: if_splits)
  from assms have "m = foldl (\<lambda>msk i. map (\<lambda>v. v = 1) (take (nat cb) row) ! i \<and> msk)
                         (map (\<lambda>v. v = 1) (take (nat cb) row) ! 0) [0..<nat cb]"
    by (auto simp: mask_row_def st Let_def split: if_splits)
  also have "\<dots> = (map (\<lambda>v. v = 1) (take (nat cb) row) ! 0
                   \<and> (\<forall>i<nat cb. map (\<lambda>v. v = 1) (take (nat cb) row) ! i))"
    by (rule mask_fold)
  also have "\<dots> = (\<forall>i<nat cb. row ! i = 1)"
    using len assms(1) by auto
  finally show ?thesis using len by simp
qed


lemma reconcile_mask:
  assumes "reconcile cb inputs target = Inr (inp, tgt, msk)"
  shows "compute_mask cb inputs = Inr msk" and "msk \<noteq> []"
    and "inp = map (reset_ctrl cb (hd msk)) inputs"
    and "scatter (hd msk) (zeros_like (map (map (slice_from cb)) inp)) target = Inr tgt"
  using assms by (auto simp: reconcile_def Let_def split: sum.splits list.splits)


lemma reset_ctrl_length [simp]: "length (reset_ctrl cb ms rows) = length rows"
  by (induction cb ms rows rule: reset_ctrl.induct) simp_all

lemma reset_row_data:
  "slice_from cb (replicate (slice_bound cb (length row)) 0 @ slice_from cb row) = slice_from cb row"
proof -
  have "slice_bound cb (length row) \<le> length row"
    by (auto simp: slice_bound_def)
  then show ?thesis by (simp add: slice_from_def)
qed

lemma reset_ctrl_data:
  "t < length rows \<Longrightarrow> slice_from cb (reset_ctrl cb ms rows ! t) = slice_from cb (rows ! t)"
proof (induction cb ms rows arbitrary: t rule: reset_ctrl.induct)
  case (1 cb m ms row rows)
  then show ?case by (cases t) (simp_all add: reset_row_data)
qed simp_all

lemma reset_ctrl_unmasked:
  "t < length rows \<Longrightarrow> (t < length ms \<Longrightarrow> \<not> ms ! t) \<Longrightarrow> reset_ctrl cb ms rows ! t = rows ! t"
proof (induction cb ms rows arbitrary: t rule: reset_ctrl.induct)
  case (1 cb m ms row rows)
  then show ?case by (cases t) auto
qed simp_all




text \<open>
  Claim C9. Resetting the control channel at the masked time-steps changes nothing else:
  for every batch index and time-step the data-channel bits of the returned inputs equal
  those of the raw input tensor, and at every time-step not selected by mask[0] the whole
  time-step, control channel included, is unchanged. The returned mask is the mask of the
  raw input tensor, computed before the reset.
\<close>

theorem reset_changes_control_at_mask_only:
  assumes "reconcile cb inputs_raw target = Inr (inputs, targets, msk)"
  shows "compute_mask cb inputs_raw = Inr msk \<and> length inputs = length inputs_raw
     \<and> (\<forall>b < length inputs_raw. length (inputs ! b) = length (inputs_raw ! b)
          \<and> (\<forall>t < length (inputs_raw ! b).
                slice_from cb (inputs ! b ! t) = slice_from cb (inputs_raw ! b ! t)
                \<and> (\<not> msk ! 0 ! t \<longrightarrow> inputs ! b ! t = inputs_raw ! b ! t)))"
proof -
  note r = reconcile_mask [OF assms]
  from r(2) have hd: "hd msk = msk ! 0" by (simp add: hd_conv_nth)
  have "\<forall>b < length inputs_raw. length (inputs ! b) = length (inputs_raw ! b)
          \<and> (\<forall>t < length (inputs_raw ! b).
                slice_from cb (inputs ! b ! t) = slice_from cb (inputs_raw ! b ! t)
                \<and> (\<not> msk ! 0 ! t \<longrightarrow> inputs ! b ! t = inputs_raw ! b ! t))"
    by (simp add: r(3) hd reset_ctrl_data reset_ctrl_unmasked)
  with r(1,3) show ?thesis by simp
qed


theorem reset_changes_control_at_mask_only_witness:
  "reconcile 3 [[[0, 0, 1, 0], [1, 1, 1, 1]]] [[[1]]]
     = Inr ([[[0, 0, 1, 0], [0, 0, 0, 1]]], [[[0], [1]]], [[False, True]])
   \<and> compute_mask 3 [[[0, 0, 1, 0], [1, 1, 1, 1]]] = Inr [[False, True]]
   \<and> slice_from 3 [0, 0, 0, 1] = slice_from 3 [1, 1, 1, 1 :: int]"
proof -
  have h: "reconcile 3 [[[0, 0, 1, 0], [1, 1, 1, 1]]] [[[1]]]
             = Inr ([[[0, 0, 1, 0], [0, 0, 0, 1]]], [[[0], [1]]], [[False, True]])"
    by code_simp
  from reset_changes_control_at_mask_only [OF h] have
    "compute_mask 3 [[[0, 0, 1, 0], [1, 1, 1, 1]]] = Inr [[False, True]]"
    and "\<forall>t < 2. slice_from 3 ([[0, 0, 1, 0], [0, 0, 0, 1]] ! t)
                   = slice_from 3 ([[0, 0, 1, 0], [1, 1, 1, 1 :: int]] ! t)"
    by simp_all
  then have "compute_mask 3 [[[0, 0, 1, 0], [1, 1, 1, 1]]] = Inr [[False, True]]"
    and "slice_from 3 [0, 0, 0, 1] = slice_from 3 [1, 1, 1, 1 :: int]"
    by (simp, drule_tac x = 1 in spec, simp)
  with h show ?thesis by simp
qed






section \<open>Invalid configurations\<close>

lemma collect_Inl_cases:
  "collect rs = Inl e \<Longrightarrow> Inl e \<in> set rs"
  by (induction rs) (auto split: sum.splits)

lemma sample_blocks_error:
  "sample_blocks p lens e = Inl err \<Longrightarrow> err = ValueError"
  by (auto simp: sample_blocks_def binomial_def dest!: collect_Inl_cases split: if_splits)

lemma randint_error: "randint low high e = Inl err \<Longrightarrow> err = ValueError"
  by (simp add: randint_def split: if_splits)

lemma randint_array_error: "randint_array low high n es = Inl err \<Longrightarrow> err = ValueError"
  by (simp add: randint_array_def split: if_splits)

lemma sample_error:
  assumes "sample_subsequences p d = Inl err"
  shows "err = ValueError"
proof (cases "randint (num_subseq_min p) (num_subseq_max p + 1) (draw_count d)")
  case (Inl e)
  with assms show ?thesis by (simp add: sample_subsequences_def randint_error)
next
  case nb: (Inr nb)
  show ?thesis
  proof (cases "randint_array (min_sequence_length p) (max_sequence_length p + 1) nb (draw_len_a d)")
    case (Inl e)
    with assms nb show ?thesis by (simp add: sample_subsequences_def randint_array_error)
  next
    case la: (Inr la)
    show ?thesis
    proof (cases "randint_array (min_sequence_length p) (max_sequence_length p + 1) nb (draw_len_b d)")
      case (Inl e)
      with assms nb la show ?thesis by (simp add: sample_subsequences_def randint_array_error)
    next
      case lb: (Inr lb)
      show ?thesis
      proof (cases "sample_blocks p la (draw_x d)")
        case (Inl e)
        with assms nb la lb show ?thesis by (simp add: sample_subsequences_def sample_blocks_error)
      next
        case x: (Inr x)
        show ?thesis
        proof (cases "sample_blocks p lb (draw_y d)")
          case (Inl e)
          with assms nb la lb x show ?thesis
            by (simp add: sample_subsequences_def sample_blocks_error)
        next
          case (Inr y)
          with assms nb la lb x show ?thesis by (simp add: sample_subsequences_def)
        qed
      qed
    qed
  qed
qed

lemma sample_Inr:
  assumes "sample_subsequences p d = Inr (x, y)"
  obtains nb la lb where
    "randint (num_subseq_min p) (num_subseq_max p + 1) (draw_count d) = Inr nb"
    "randint_array (min_sequence_length p) (max_sequence_length p + 1) nb (draw_len_a d) = Inr la"
    "randint_array (min_sequence_length p) (max_sequence_length p + 1) nb (draw_len_b d) = Inr lb"
    "sample_blocks p la (draw_x d) = Inr x" "sample_blocks p lb (draw_y d) = Inr y"
  using assms unfolding sample_subsequences_def
  by (simp split: sum.splits)

lemma sample_blocks_Nil [simp]: "sample_blocks p [] e = Inr []"
  by (simp add: sample_blocks_def)

lemma sample_blocks_bad_bias:
  assumes "bias p < 0 \<or> 1 < bias p" and "lens \<noteq> []"
  shows "sample_blocks p lens e = Inl ValueError"
proof -
  from assms(2) obtain n ns where "lens = n # ns" by (cases lens) auto
  with assms(1) show ?thesis by (auto simp: sample_blocks_def binomial_def)
qed

lemma sample_bad_counts:
  assumes "num_subseq_max p < num_subseq_min p"
  shows "sample_subsequences p d = Inl ValueError"
  using assms by (simp add: sample_subsequences_def randint_def)

lemma randint_array_bad_range:
  assumes "high \<le> low" and "randint_array low high n es = Inr ls"
  shows "ls = []"
  using assms by (simp add: randint_array_def split: if_splits)

lemma sample_bad_lengths:
  assumes "max_sequence_length p < min_sequence_length p"
  shows "sample_subsequences p d = Inl ValueError \<or> sample_subsequences p d = Inr ([], [])"
proof (cases "sample_subsequences p d")
  case (Inl err)
  then show ?thesis using sample_error by blast
next
  case (Inr xy)
  obtain x y where xy: "xy = (x, y)" by (cases xy)
  from Inr [unfolded xy] obtain nb la lb where
    la: "randint_array (min_sequence_length p) (max_sequence_length p + 1) nb (draw_len_a d) = Inr la"
    and lb: "randint_array (min_sequence_length p) (max_sequence_length p + 1) nb (draw_len_b d) = Inr lb"
    and x: "sample_blocks p la (draw_x d) = Inr x"
    and y: "sample_blocks p lb (draw_y d) = Inr y"
    by (rule sample_Inr)
  from assms have "max_sequence_length p + 1 \<le> min_sequence_length p" by simp
  then have "la = []" "lb = []"
    using randint_array_bad_range [OF _ la] randint_array_bad_range [OF _ lb] by simp_all
  with x y have "x = []" "y = []" by simp_all
  with Inr xy show ?thesis by simp
qed

lemma sample_bad_bias:
  assumes "bias p < 0 \<or> 1 < bias p"
  shows "sample_subsequences p d = Inl ValueError \<or> sample_subsequences p d = Inr ([], [])"
proof (cases "sample_subsequences p d")
  case (Inl err)
  then show ?thesis using sample_error by blast
next
  case (Inr xy)
  obtain x y where xy: "xy = (x, y)" by (cases xy)
  from Inr [unfolded xy] obtain nb la lb where
    la: "randint_array (min_sequence_length p) (max_sequence_length p + 1) nb (draw_len_a d) = Inr la"
    and lb: "randint_array (min_sequence_length p) (max_sequence_length p + 1) nb (draw_len_b d) = Inr lb"
    and x: "sample_blocks p la (draw_x d) = Inr x"
    and y: "sample_blocks p lb (draw_y d) = Inr y"
    by (rule sample_Inr)
  have "la = []"
  proof (rule ccontr)
    assume "la \<noteq> []"
    from sample_blocks_bad_bias [OF assms this, of "draw_x d"] x show False by simp
  qed
  moreover have "lb = []"
  proof (rule ccontr)
    assume "lb \<noteq> []"
    from sample_blocks_bad_bias [OF assms this, of "draw_y d"] y show False by simp
  qed
  ultimately have "x = []" "y = []" using x y by simp_all
  with Inr xy show ?thesis by simp
qed

lemma assemble_nothing: "assemble p [] [] = Inl ValueError"
  by (simp add: assemble_def concatenate_def)

text \<open>
  Claim C7. For every configuration that is invalid in one of the five listed ways, the
  first batch of the generator is an error and no episode is returned: the assertions of
  the constructor raise \<^verbatim>\<open>AssertionError\<close> when control_bits < 3 or data_bits < 1, and
  otherwise \<^verbatim>\<open>generate_batch\<close> raises \<^verbatim>\<open>ValueError\<close> before any tensor is built.
\<close>

theorem invalid_config_fails:
  assumes "invalid_config p"
  shows "first_batch p d =
           Inl (if control_bits p < 3 \<or> data_bits p < 1 then AssertionError else ValueError)"
proof (cases "control_bits p < 3 \<or> data_bits p < 1")
  case True
  then show ?thesis by (auto simp: first_batch_def init_def)
next
  case False
  then have init: "init p = Inr p" by (simp add: init_def)
  from False assms have "num_subseq_max p < num_subseq_min p
      \<or> max_sequence_length p < min_sequence_length p \<or> bias p < 0 \<or> 1 < bias p"
    by (auto simp: invalid_config_def)
  then have "sample_subsequences p d = Inl ValueError \<or> sample_subsequences p d = Inr ([], [])"
    using sample_bad_counts sample_bad_lengths sample_bad_bias by blast
  then have "generate_batch p d = Inl ValueError"
    by (auto simp: generate_batch_def assemble_nothing)
  with False init show ?thesis by (simp add: first_batch_def)
qed

theorem invalid_config_fails_witness:
  "invalid_config (main_params\<lparr>bias := 3 / 2\<rparr>)
   \<and> first_batch (main_params\<lparr>bias := 3 / 2\<rparr>) example_draws = Inl ValueError
   \<and> invalid_config (main_params\<lparr>control_bits := 2\<rparr>)
   \<and> first_batch (main_params\<lparr>control_bits := 2\<rparr>) example_draws = Inl AssertionError"
proof -
  have a: "invalid_config (main_params\<lparr>bias := 3 / 2\<rparr>)"
    and b: "invalid_config (main_params\<lparr>control_bits := 2\<rparr>)"
    by (simp_all add: invalid_config_def main_params_def)
  from invalid_config_fails [OF a, of example_draws] invalid_config_fails [OF b, of example_draws]
    a b show ?thesis by (simp add: main_params_def)
qed

section \<open>Shapes and markers of the assembled tensor\<close>

lemma has_shape_time_len:
  "has_shape B T D seq \<Longrightarrow> 0 < B \<Longrightarrow> time_len seq = int T"
  by (cases seq) (auto simp: has_shape_def time_len_def)

lemma add_ctrl_shape:
  "has_shape B T D seq \<Longrightarrow> has_shape B T (length c + D) (add_ctrl seq c pos)"
  by (auto simp: has_shape_def add_ctrl_def pos_def)

lemma add_ctrl_rows:
  "rows \<in> set (add_ctrl seq c pos) \<Longrightarrow> row \<in> set rows \<Longrightarrow> take (length c) row = c"
  by (auto simp: add_ctrl_def pos_def)

lemma zeros_shape: "has_shape (nat B) (nat T) (nat D) (zeros B T D)"
  by (auto simp: has_shape_def zeros_def)

lemma zeros_like_shape: "has_shape B T D seq \<Longrightarrow> has_shape B T D (zeros_like seq)"
  by (auto simp: has_shape_def zeros_like_def)

lemma marker_row_shape:
  "has_shape B T D seq \<Longrightarrow> 0 < T \<Longrightarrow> has_shape B 1 D (marker_row seq)"
  by (auto simp: has_shape_def marker_row_def split: list.splits)

lemma binomial_shape:
  assumes "binomial pr B T D e = Inr seq"
  shows "has_shape (nat B) (nat T) (nat D) seq"
  using assms by (auto simp: binomial_def has_shape_def split: if_splits)

lemma time_len_nonneg [simp]: "0 \<le> time_len seq"
  by (simp add: time_len_def split: list.splits)

lemma sum_time_len_nonneg [simp]: "0 \<le> sum_list (map time_len parts)"
  by (rule sum_list_nonneg) auto

lemma concat_time_shape:
  assumes "parts \<noteq> []" and "\<forall>seq \<in> set parts. has_shape B (nat (time_len seq)) D seq" and "0 < B"
  shows "has_shape B (nat (sum_list (map time_len parts))) D (concat_time parts)"
  using assms
proof (induction parts rule: concat_time.induct)
  case 1
  then show ?case by simp
next
  case (2 b)
  then show ?case by simp
next
  case (3 b v va)
  let ?rest = "concat_time (v # va)"
  from 3 have r: "has_shape B (nat (sum_list (map time_len (v # va)))) D ?rest" by simp
  from 3 have b: "has_shape B (nat (time_len b)) D b" by simp
  have nn: "0 \<le> time_len b" "0 \<le> sum_list (map time_len (v # va))"
    by (rule time_len_nonneg, rule sum_time_len_nonneg)
  have "has_shape B (nat (time_len b) + nat (sum_list (map time_len (v # va)))) D (map2 (@) b ?rest)"
    using r b by (auto simp: has_shape_def dest!: set_zip_leftD set_zip_rightD
        elim!: in_set_zipE)
  moreover have "nat (time_len b) + nat (sum_list (map time_len (v # va)))
                   = nat (sum_list (map time_len (b # v # va)))"
    using nn by (simp add: nat_add_distrib)
  ultimately show ?case by simp
qed


lemma add_ctrl_marked:
  "c \<in> control_patterns \<Longrightarrow> marked (add_ctrl seq c pos)"
proof -
  assume c: "c \<in> control_patterns"
  then have "length c = 3"
    by (auto simp: control_patterns_def ctrl_data_def ctrl_dummy_def ctrl_inter_def ctrl_xy_def)
  with c show ?thesis
    unfolding marked_def using add_ctrl_rows [of _ seq c] by metis
qed

lemma concat_time_marked:
  "\<forall>seq \<in> set parts. marked seq \<Longrightarrow> marked (concat_time parts)"
proof (induction parts rule: concat_time.induct)
  case (3 b v va)
  then have "marked b" "marked (concat_time (v # va))" by simp_all
  then show ?case
    by (auto simp: marked_def elim!: in_set_zipE)
qed (simp_all add: marked_def)

lemma rotated_row:
  "length (slice_from r row @ slice_to r row) = length row"
  "set (slice_from r row @ slice_to r row) = set row"
proof -
  have "slice_bound r (length row) \<le> length row" by (auto simp: slice_bound_def)
  then show "length (slice_from r row @ slice_to r row) = length row"
    by (simp add: slice_from_def slice_to_def)
  have "set (drop k row) \<union> set (take k row) = set row" for k
    by (metis Un_commute append_take_drop_id set_append)
  then show "set (slice_from r row @ slice_to r row) = set row"
    by (simp add: slice_from_def slice_to_def)
qed

lemma rotation_offset_total: "L \<noteq> 0 \<Longrightarrow> \<exists>r. rotation_offset rot L = Inr r"
  by (cases rot) (simp_all add: Let_def)

lemma rotate_shape:
  assumes "has_shape B T D seq" and "0 < B" and "0 < T" and "marked seq"
  shows "\<exists>out. rotate seq rot (time_len seq) = Inr out \<and> has_shape B T D out \<and> marked out"
proof -
  from assms(1-3) have "time_len seq \<noteq> 0" by (simp add: has_shape_time_len)
  then obtain r where r: "rotation_offset rot (time_len seq) = Inr r"
    using rotation_offset_total by blast
  let ?out = "map (\<lambda>row. slice_from r row @ slice_to r row) seq"
  have "has_shape B T D ?out" using assms(1)
    by (auto simp: has_shape_def rotated_row simp del: length_append set_append)
  moreover have "marked ?out" using assms(4)
    by (auto simp: marked_def rotated_row simp del: length_append set_append)
  ultimately show ?thesis using r by (simp add: rotate_def)
qed


lemma start_patterns [simp]:
  "[1, 0, 0] \<in> control_patterns" "[0, 1, 0] \<in> control_patterns"
  "ctrl_data \<in> control_patterns" "ctrl_dummy \<in> control_patterns"
  "ctrl_inter \<in> control_patterns" "ctrl_xy \<in> control_patterns"
  by (simp_all add: control_patterns_def)

lemma ctrl_lengths [simp]:
  "length ctrl_data = 3" "length ctrl_dummy = 3" "length ctrl_inter = 3" "length ctrl_xy = 3"
  by (simp_all add: ctrl_data_def ctrl_dummy_def ctrl_inter_def ctrl_xy_def)

lemma add_ctrl_shape3:
  "has_shape B T D seq \<Longrightarrow> length c = 3 \<Longrightarrow> has_shape B T (3 + D) (add_ctrl seq c pos)"
  using add_ctrl_shape [of B T D seq c] by simp

lemma interleave_shape:
  assumes B: "0 < B"
    and sx: "has_shape B Tx D sx" and sy: "has_shape B Ty D sy" and Ty: "0 < Ty" and Tx: "0 < Tx"
    and ixy: "has_shape B 1 (3 + D) inter_xy" "marked inter_xy"
  shows "\<exists>parts. interleave inter_xy rot (augment sx markers [1, 0, 0] True)
                    (augment sy markers [0, 1, 0] False) = Inr parts
           \<and> (\<forall>seq \<in> set parts. has_shape B (nat (time_len seq)) (3 + D) seq \<and> marked seq)
           \<and> sum_list (map time_len parts) = int Tx + 2 + 2 * int Ty"
proof -
  let ?m = "add_ctrl (marker_row sx) [1, 0, 0] pos"
  let ?w = "add_ctrl sx ctrl_data pos"
  let ?b0 = "add_ctrl sy ctrl_data pos"
  let ?b1 = "add_ctrl (zeros_like sy) ctrl_dummy pos"
  have a: "augment sx markers [1, 0, 0] True = [?m, ?w, add_ctrl (zeros_like sx) ctrl_dummy pos]"
    and b: "augment sy markers [0, 1, 0] False = [?b0, ?b1]"
    by (simp_all add: augment_def markers_def)
  have m: "has_shape B 1 (3 + D) ?m" "marked ?m"
    using add_ctrl_shape3 [OF marker_row_shape [OF sx Tx], of "[1, 0, 0]"] add_ctrl_marked by simp_all
  have w: "has_shape B Tx (3 + D) ?w" "marked ?w"
    using add_ctrl_shape3 [OF sx, of ctrl_data] add_ctrl_marked by simp_all
  have b0: "has_shape B Ty (3 + D) ?b0" "marked ?b0"
    using add_ctrl_shape3 [OF sy, of ctrl_data] add_ctrl_marked by simp_all
  have b1: "has_shape B Ty (3 + D) ?b1" "marked ?b1"
    using add_ctrl_shape3 [OF zeros_like_shape [OF sy], of ctrl_dummy] add_ctrl_marked by simp_all
  from rotate_shape [OF b0(1) B Ty b0(2), of rot] obtain out where
    out: "rotate ?b0 rot (time_len ?b0) = Inr out" "has_shape B Ty (3 + D) out" "marked out"
    by blast
  have res: "interleave inter_xy rot (augment sx markers [1, 0, 0] True)
                    (augment sy markers [0, 1, 0] False) = Inr [?m, ?w, inter_xy, out, ?b1]"
    by (simp add: a b interleave_def out(1))
  have tl: "time_len ?m = 1" "time_len ?w = int Tx" "time_len inter_xy = 1"
    "time_len out = int Ty" "time_len ?b1 = int Ty"
    using m(1) w(1) ixy(1) out(2) b1(1) B by (simp_all add: has_shape_time_len)
  show ?thesis
    unfolding res using m w ixy out(2,3) b1 tl by simp
qed

lemma recall_part_shape:
  assumes sx: "has_shape B Tx D sx"
  shows "\<exists>r. recall_part (augment sx markers [1, 0, 0] True) = Inr r
           \<and> has_shape B (Tx - 1) (3 + D) r \<and> marked r"
proof -
  let ?d = "add_ctrl (zeros_like sx) ctrl_dummy pos"
  have d: "has_shape B Tx (3 + D) ?d" "marked ?d"
    using add_ctrl_shape3 [OF zeros_like_shape [OF sx], of ctrl_dummy] add_ctrl_marked by simp_all
  have r: "recall_part (augment sx markers [1, 0, 0] True) = Inr (map (slice_from 1) ?d)"
    by (simp add: recall_part_def augment_def markers_def)
  have sl: "slice_from 1 rows = drop 1 rows" for rows :: "int list list"
    by (cases rows) (simp_all add: slice_from_def slice_bound_def)
  have "has_shape B (Tx - 1) (3 + D) (map (slice_from 1) ?d)"
    using d(1) by (auto simp: has_shape_def sl dest: in_set_dropD)
  moreover have "marked (map (slice_from 1) ?d)"
    using d(2) by (auto simp: marked_def sl dest: in_set_dropD)
  ultimately show ?thesis using r by simp
qed


lemma data_1_shape:
  assumes B: "0 < B" and ixy: "has_shape B 1 (3 + D) inter_xy" "marked inter_xy"
    and len: "length x = length y"
    and x: "\<forall>sx \<in> set x. has_shape B (nat (time_len sx)) D sx \<and> 0 < time_len sx"
    and y: "\<forall>sy \<in> set y. has_shape B (nat (time_len sy)) D sy \<and> 0 < time_len sy"
  shows "\<exists>data_1.
           collect (map (\<lambda>(a, b). interleave inter_xy rot a b)
                     (zip (map (\<lambda>seq. augment seq markers [1, 0, 0] True) x)
                          (map (\<lambda>seq. augment seq markers [0, 1, 0] False) y))) = Inr data_1
           \<and> (\<forall>seq \<in> set (concat data_1).
                  has_shape B (nat (time_len seq)) (3 + D) seq \<and> marked seq)
           \<and> sum_list (map time_len (concat data_1))
                = sum_list (map time_len x) + 2 * int (length x) + 2 * sum_list (map time_len y)"
  using len x y
proof (induction x y rule: list_induct2)
  case Nil
  then show ?case by simp
next
  case (Cons sx xs sy ys)
  from Cons.prems have sx: "has_shape B (nat (time_len sx)) D sx" "0 < nat (time_len sx)"
    and sy: "has_shape B (nat (time_len sy)) D sy" "0 < nat (time_len sy)"
    by simp_all
  from interleave_shape [OF B sx(1) sy(1) sy(2) sx(2) ixy, of rot] obtain parts where
    p: "interleave inter_xy rot (augment sx markers [1, 0, 0] True)
          (augment sy markers [0, 1, 0] False) = Inr parts"
      "\<forall>seq \<in> set parts. has_shape B (nat (time_len seq)) (3 + D) seq \<and> marked seq"
      "sum_list (map time_len parts) = int (nat (time_len sx)) + 2 + 2 * int (nat (time_len sy))"
    by blast
  from Cons.IH Cons.prems obtain rest where
    r: "collect (map (\<lambda>(a, b). interleave inter_xy rot a b)
                     (zip (map (\<lambda>seq. augment seq markers [1, 0, 0] True) xs)
                          (map (\<lambda>seq. augment seq markers [0, 1, 0] False) ys))) = Inr rest"
      "\<forall>seq \<in> set (concat rest). has_shape B (nat (time_len seq)) (3 + D) seq \<and> marked seq"
      "sum_list (map time_len (concat rest))
                = sum_list (map time_len xs) + 2 * int (length xs) + 2 * sum_list (map time_len ys)"
    by auto
  have "collect (map (\<lambda>(a, b). interleave inter_xy rot a b)
                     (zip (map (\<lambda>seq. augment seq markers [1, 0, 0] True) (sx # xs))
                          (map (\<lambda>seq. augment seq markers [0, 1, 0] False) (sy # ys))))
          = Inr (parts # rest)"
    by (simp add: p(1) r(1))
  moreover have "\<forall>seq \<in> set (concat (parts # rest)).
                  has_shape B (nat (time_len seq)) (3 + D) seq \<and> marked seq"
    using p(2) r(2) by auto
  moreover have "sum_list (map time_len (concat (parts # rest)))
       = sum_list (map time_len (sx # xs)) + 2 * int (length (sx # xs))
           + 2 * sum_list (map time_len (sy # ys))"
    using p(3) r(3) by simp
  ultimately show ?case by blast
qed

lemma data_2_shape:
  assumes B: "0 < B"
    and x: "\<forall>sx \<in> set x. has_shape B (nat (time_len sx)) D sx \<and> 0 < time_len sx"
  shows "\<exists>data_2.
           collect (map recall_part (map (\<lambda>seq. augment seq markers [1, 0, 0] True) x)) = Inr data_2
           \<and> (\<forall>seq \<in> set data_2. has_shape B (nat (time_len seq)) (3 + D) seq \<and> marked seq)
           \<and> sum_list (map time_len data_2) = sum_list (map time_len x) - int (length x)"
  using x
proof (induction x)
  case Nil
  then show ?case by simp
next
  case (Cons sx xs)
  from Cons.prems have sx: "has_shape B (nat (time_len sx)) D sx" "0 < time_len sx"
    by simp_all
  from recall_part_shape [OF sx(1)] obtain r where
    r: "recall_part (augment sx markers [1, 0, 0] True) = Inr r"
      "has_shape B (nat (time_len sx) - 1) (3 + D) r" "marked r"
    by blast
  from r(2) B have tr: "time_len r = time_len sx - 1"
    using has_shape_time_len [OF r(2) B] sx(2) by simp
  from Cons.IH Cons.prems obtain rest where
    rest: "collect (map recall_part (map (\<lambda>seq. augment seq markers [1, 0, 0] True) xs)) = Inr rest"
      "\<forall>seq \<in> set rest. has_shape B (nat (time_len seq)) (3 + D) seq \<and> marked seq"
      "sum_list (map time_len rest) = sum_list (map time_len xs) - int (length xs)"
    by auto
  have "collect (map recall_part (map (\<lambda>seq. augment seq markers [1, 0, 0] True) (sx # xs)))
          = Inr (r # rest)"
    by (simp add: r(1) rest(1) del: map_map)
  moreover have "\<forall>seq \<in> set (r # rest). has_shape B (nat (time_len seq)) (3 + D) seq \<and> marked seq"
    using r(2,3) rest(2) tr sx(2) by (simp add: nat_diff_distrib)
  moreover have "sum_list (map time_len (r # rest))
                   = sum_list (map time_len (sx # xs)) - int (length (sx # xs))"
    using tr rest(3) by simp
  ultimately show ?case by blast
qed


lemma assemble_shape:
  assumes B: "0 < batch_size p" and D: "0 \<le> data_bits p"
    and len: "length x = length y" and ne: "x \<noteq> []"
    and x: "\<forall>sx \<in> set x. has_shape (nat (batch_size p)) (nat (time_len sx)) (nat (data_bits p)) sx
                          \<and> 0 < time_len sx"
    and y: "\<forall>sy \<in> set y. has_shape (nat (batch_size p)) (nat (time_len sy)) (nat (data_bits p)) sy
                          \<and> 0 < time_len sy"
  shows "\<exists>inputs_raw target. assemble p x y = Inr (inputs_raw, target)
           \<and> has_shape (nat (batch_size p))
                (nat (2 * sum_list (map time_len x) + 2 * sum_list (map time_len y)
                        + int (length x) + 1))
                (3 + nat (data_bits p)) inputs_raw
           \<and> marked inputs_raw
           \<and> has_shape (nat (batch_size p))
                (nat (sum_list (map time_len y) + sum_list (map time_len x)))
                (nat (data_bits p)) target"
proof -
  let ?B = "nat (batch_size p)" and ?D = "nat (data_bits p)"
  let ?inter_seq = "add_ctrl (zeros (batch_size p) 1 (data_bits p)) ctrl_inter pos"
  let ?inter_xy = "add_ctrl (zeros (batch_size p) 1 (data_bits p)) ctrl_xy pos"
  from B have B': "0 < ?B" by simp
  have z: "has_shape ?B 1 ?D (zeros (batch_size p) 1 (data_bits p))"
    using zeros_shape [of "batch_size p" 1 "data_bits p"] by simp
  have iseq: "has_shape ?B 1 (3 + ?D) ?inter_seq" "marked ?inter_seq"
    and ixy: "has_shape ?B 1 (3 + ?D) ?inter_xy" "marked ?inter_xy"
    using add_ctrl_shape3 [OF z] add_ctrl_marked by simp_all
  have tseq: "time_len ?inter_seq = 1"
    using has_shape_time_len [OF iseq(1) B'] by simp
  from data_1_shape [OF B' ixy len x y, of "num_rotation p"] obtain data_1 where
    d1: "collect (map (\<lambda>(a, b). interleave ?inter_xy (num_rotation p) a b)
                     (zip (map (\<lambda>seq. augment seq markers [1, 0, 0] True) x)
                          (map (\<lambda>seq. augment seq markers [0, 1, 0] False) y))) = Inr data_1"
      "\<forall>seq \<in> set (concat data_1). has_shape ?B (nat (time_len seq)) (3 + ?D) seq \<and> marked seq"
      "sum_list (map time_len (concat data_1))
         = sum_list (map time_len x) + 2 * int (length x) + 2 * sum_list (map time_len y)"
    by blast
  from data_2_shape [OF B' x] obtain data_2 where
    d2: "collect (map recall_part (map (\<lambda>seq. augment seq markers [1, 0, 0] True) x)) = Inr data_2"
      "\<forall>seq \<in> set data_2. has_shape ?B (nat (time_len seq)) (3 + ?D) seq \<and> marked seq"
      "sum_list (map time_len data_2) = sum_list (map time_len x) - int (length x)"
    by blast
  let ?parts = "concat data_1 @ [?inter_seq] @ data_2"
  have parts: "\<forall>seq \<in> set ?parts. has_shape ?B (nat (time_len seq)) (3 + ?D) seq"
    using d1(2) d2(2) iseq(1) tseq by auto
  have "has_shape ?B (nat (sum_list (map time_len ?parts))) (3 + ?D) (concat_time ?parts)"
    by (rule concat_time_shape [OF _ parts B']) simp
  moreover have "sum_list (map time_len ?parts)
     = 2 * sum_list (map time_len x) + 2 * sum_list (map time_len y) + int (length x) + 1"
    using d1(3) d2(3) tseq by simp
  ultimately have sh: "has_shape ?B
       (nat (2 * sum_list (map time_len x) + 2 * sum_list (map time_len y) + int (length x) + 1))
       (3 + ?D) (concat_time ?parts)"
    by simp
  have mk: "marked (concat_time ?parts)"
    by (rule concat_time_marked) (use d1(2) d2(2) iseq(2) in auto)
  have yx: "\<forall>seq \<in> set (y @ x). has_shape ?B (nat (time_len seq)) ?D seq"
    using x y by auto
  have "has_shape ?B (nat (sum_list (map time_len (y @ x)))) ?D (concat_time (y @ x))"
    by (rule concat_time_shape [OF _ yx B']) (use ne in simp)
  then have tg: "has_shape ?B (nat (sum_list (map time_len y) + sum_list (map time_len x))) ?D
                   (concat_time (y @ x))"
    by simp
  have "assemble p x y = Inr (concat_time ?parts, concat_time (y @ x))"
    using ne by (simp add: assemble_def concatenate_def d1(1) d2(1) Let_def del: map_map)
  with sh mk tg show ?thesis by blast
qed

lemma binomial_blocks_shape:
  assumes "0 \<le> pr" "pr \<le> 1" "0 < B" "0 \<le> D" "\<forall>n \<in> set lens. 0 < n"
  shows "\<exists>blocks. collect (map (\<lambda>(i, n). binomial pr B n D (e i)) (enumerate k lens)) = Inr blocks
           \<and> map time_len blocks = lens
           \<and> (\<forall>seq \<in> set blocks. has_shape (nat B) (nat (time_len seq)) (nat D) seq
                                   \<and> 0 < time_len seq)"
  using assms(5)
proof (induction lens arbitrary: k)
  case Nil
  then show ?case by simp
next
  case (Cons n ns)
  from Cons.prems have n: "0 < n" by simp
  from assms(1-4) n obtain seq where seq: "binomial pr B n D (e k) = Inr seq"
    by (auto simp: binomial_def)
  then have sh: "has_shape (nat B) (nat n) (nat D) seq" by (rule binomial_shape)
  with assms(3) n have tl: "time_len seq = n" by (simp add: has_shape_time_len)
  from Cons.IH [of "Suc k"] Cons.prems obtain rest where
    rest: "collect (map (\<lambda>(i, n). binomial pr B n D (e i)) (enumerate (Suc k) ns)) = Inr rest"
      "map time_len rest = ns"
      "\<forall>seq \<in> set rest. has_shape (nat B) (nat (time_len seq)) (nat D) seq \<and> 0 < time_len seq"
    by auto
  have 1: "collect (map (\<lambda>(i, n). binomial pr B n D (e i)) (enumerate k (n # ns))) = Inr (seq # rest)"
    by (simp add: seq rest(1))
  have 2: "map time_len (seq # rest) = n # ns" using tl rest(2) by simp
  have 3: "\<forall>s \<in> set (seq # rest). has_shape (nat B) (nat (time_len s)) (nat D) s
                                   \<and> 0 < time_len s"
    using sh tl n rest(3) by simp
  show ?case by (rule exI [of _ "seq # rest"]) (intro conjI 1 2 3)
qed

lemma randint_array_range:
  assumes "randint_array low high n es = Inr ls" and "1 \<le> low"
  shows "length ls = nat n" and "\<forall>l \<in> set ls. 0 < l"
proof -
  show "length ls = nat n"
    using assms(1) by (auto simp: randint_array_def split: if_splits)
  show "\<forall>l \<in> set ls. 0 < l"
  proof
    fix l assume l: "l \<in> set ls"
    with assms(1) obtain i where hl: "low < high" and "l = low + int (es i) mod (high - low)"
      by (auto simp: randint_array_def split: if_splits)
    moreover from hl have "0 \<le> int (es i) mod (high - low)" by simp
    ultimately show "0 < l" using assms(2) by linarith
  qed
qed

lemma randint_range:
  assumes "randint low high e = Inr n"
  shows "low \<le> n"
proof -
  from assms have hl: "low < high" and n: "n = low + int e mod (high - low)"
    by (auto simp: randint_def split: if_splits)
  from hl have "0 \<le> int e mod (high - low)" by simp
  with n show ?thesis by linarith
qed

lemma sample_valid:
  assumes v: "valid_config p"
    and nb: "randint (num_subseq_min p) (num_subseq_max p + 1) (draw_count d) = Inr nb"
    and la: "randint_array (min_sequence_length p) (max_sequence_length p + 1) nb (draw_len_a d) = Inr la"
    and lb: "randint_array (min_sequence_length p) (max_sequence_length p + 1) nb (draw_len_b d) = Inr lb"
  shows "\<exists>x y. sample_subsequences p d = Inr (x, y)
           \<and> map time_len x = la \<and> map time_len y = lb \<and> 1 \<le> nb \<and> length la = nat nb
           \<and> length lb = nat nb
           \<and> (\<forall>seq \<in> set (x @ y). has_shape (nat (batch_size p)) (nat (time_len seq))
                                      (nat (data_bits p)) seq \<and> 0 < time_len seq)"
proof -
  from v have c: "0 \<le> bias p" "bias p \<le> 1" "0 < batch_size p" "0 \<le> data_bits p"
    and m: "1 \<le> min_sequence_length p" and s: "1 \<le> num_subseq_min p"
    by (simp_all add: valid_config_def)
  note ra = randint_array_range [OF la m] and rb = randint_array_range [OF lb m]
  from binomial_blocks_shape [OF c ra(2), of "draw_x d" 0] obtain x where
    x: "sample_blocks p la (draw_x d) = Inr x" "map time_len x = la"
      "\<forall>seq \<in> set x. has_shape (nat (batch_size p)) (nat (time_len seq)) (nat (data_bits p)) seq
                       \<and> 0 < time_len seq"
    unfolding sample_blocks_def by blast
  from binomial_blocks_shape [OF c rb(2), of "draw_y d" 0] obtain y where
    y: "sample_blocks p lb (draw_y d) = Inr y" "map time_len y = lb"
      "\<forall>seq \<in> set y. has_shape (nat (batch_size p)) (nat (time_len seq)) (nat (data_bits p)) seq
                       \<and> 0 < time_len seq"
    unfolding sample_blocks_def by blast
  have "sample_subsequences p d = Inr (x, y)"
    by (simp add: sample_subsequences_def nb la lb x(1) y(1))
  moreover have "1 \<le> nb" using randint_range [OF nb] s by simp
  ultimately show ?thesis using x(2,3) y(2,3) ra(1) rb(1) by auto
qed

lemma marked_row_not_masked:
  assumes "take 3 row \<in> control_patterns" and "3 \<le> cb" and "mask_row cb row = Inr m"
  shows "\<not> m"
proof -
  from assms(2,3) have len: "nat cb \<le> length row" and m: "m = (\<forall>i < nat cb. row ! i = 1)"
    using mask_row_all_ones [of cb row m] by simp_all
  from len assms(2) have l3: "3 \<le> length row" by simp
  then obtain a b c rest where row: "row = a # b # c # rest"
    by (cases row; cases "tl row"; cases "tl (tl row)") auto
  with assms(1) have "a = 0 \<or> b = 0 \<or> c = 0"
    by (auto simp: control_patterns_def ctrl_data_def ctrl_dummy_def ctrl_inter_def ctrl_xy_def)
  then have "\<exists>i < 3. row ! i \<noteq> 1"
    using row by (auto simp: less_Suc_eq numeral_3_eq_3)
  then obtain i where "i < 3" "row ! i \<noteq> 1" by blast
  with assms(2) m show ?thesis by (auto intro: exI [of _ i])
qed


lemma assembled_valid:
  assumes v: "valid_config p"
    and nb: "randint (num_subseq_min p) (num_subseq_max p + 1) (draw_count d) = Inr nb"
    and la: "randint_array (min_sequence_length p) (max_sequence_length p + 1) nb (draw_len_a d) = Inr la"
    and lb: "randint_array (min_sequence_length p) (max_sequence_length p + 1) nb (draw_len_b d) = Inr lb"
  shows "\<exists>x y inputs_raw target.
           sample_subsequences p d = Inr (x, y) \<and> assemble p x y = Inr (inputs_raw, target)
           \<and> has_shape (nat (batch_size p)) (nat (2 * sum_list la + 2 * sum_list lb + nb + 1))
                (3 + nat (data_bits p)) inputs_raw
           \<and> marked inputs_raw
           \<and> has_shape (nat (batch_size p)) (nat (sum_list lb + sum_list la))
                (nat (data_bits p)) target
           \<and> 2 \<le> sum_list lb + sum_list la"
proof -
  from sample_valid [OF v nb la lb] obtain x y where
    s: "sample_subsequences p d = Inr (x, y)" and tx: "map time_len x = la"
    and ty: "map time_len y = lb" and n1: "1 \<le> nb"
    and ll: "length la = nat nb" "length lb = nat nb"
    and sh: "\<forall>seq \<in> set (x @ y). has_shape (nat (batch_size p)) (nat (time_len seq))
                                      (nat (data_bits p)) seq \<and> 0 < time_len seq"
    by blast
  from v have B: "0 < batch_size p" and D: "0 \<le> data_bits p"
    by (simp_all add: valid_config_def)
  have lx: "length x = nat nb" and ly: "length y = nat nb"
    using tx ty ll by (metis length_map)+
  then have len: "length x = length y" and ne: "x \<noteq> []" and ney: "y \<noteq> []"
    using n1 by auto
  from sh have shx: "\<forall>sx \<in> set x. has_shape (nat (batch_size p)) (nat (time_len sx))
                                      (nat (data_bits p)) sx \<and> 0 < time_len sx"
    and shy: "\<forall>sy \<in> set y. has_shape (nat (batch_size p)) (nat (time_len sy))
                                      (nat (data_bits p)) sy \<and> 0 < time_len sy"
    by simp_all
  from assemble_shape [OF B D len ne shx shy] obtain inputs_raw target where
    a: "assemble p x y = Inr (inputs_raw, target)"
      "has_shape (nat (batch_size p))
         (nat (2 * sum_list (map time_len x) + 2 * sum_list (map time_len y) + int (length x) + 1))
         (3 + nat (data_bits p)) inputs_raw"
      "marked inputs_raw"
      "has_shape (nat (batch_size p)) (nat (sum_list (map time_len y) + sum_list (map time_len x)))
         (nat (data_bits p)) target"
    by blast
  have "int (length x) = nb" using lx n1 by simp
  with a(2) tx ty have sh1: "has_shape (nat (batch_size p))
       (nat (2 * sum_list la + 2 * sum_list lb + nb + 1)) (3 + nat (data_bits p)) inputs_raw"
    by simp
  obtain sx xs where xc: "x = sx # xs" using ne by (cases x) auto
  with shx have "0 < time_len sx" by simp
  moreover have "0 \<le> sum_list (map time_len xs)" by (rule sum_time_len_nonneg)
  ultimately have "1 \<le> time_len sx + sum_list (map time_len xs)" by linarith
  then have "1 \<le> sum_list (map time_len x)" unfolding xc by simp
  then have sa: "1 \<le> sum_list la" using tx by simp
  obtain sy ys where yc: "y = sy # ys" using ney by (cases y) auto
  with shy have "0 < time_len sy" by simp
  moreover have "0 \<le> sum_list (map time_len ys)" by (rule sum_time_len_nonneg)
  ultimately have "1 \<le> time_len sy + sum_list (map time_len ys)" by linarith
  then have "1 \<le> sum_list (map time_len y)" unfolding yc by simp
  then have "1 \<le> sum_list lb" using ty by simp
  with sa have "2 \<le> sum_list lb + sum_list la" by simp
  with s a(1,3,4) sh1 tx ty show ?thesis by auto
qed


section \<open>Properties of the assembled episode\<close>









section \<open>The generator with the Channel Encoder of the specification\<close>

text \<open>
  With \<^verbatim>\<open>augment\<close> as the specification describes it the mask selects no time-step,
  so for every valid configuration the assignment of line 130 (or, when control_bits exceeds
  the width of the tensor, the indexing of line 123) raises.
\<close>

lemma mask_row_marked:
  assumes "take 3 row \<in> control_patterns" and "3 \<le> cb" and "length row = 3 + D"
  shows "mask_row cb row = (if nat cb \<le> 3 + D then Inr False else Inl IndexError)"
proof (cases "mask_row cb row")
  case (Inl e)
  have st: "slice_to cb row = take (nat cb) row"
    using assms(2) by (simp add: slice_to_def slice_bound_def min_def)
  from Inl assms(2,3) show ?thesis
    by (auto simp: mask_row_def st Let_def min_def split: if_splits)
next
  case (Inr m)
  from marked_row_not_masked [OF assms(1,2) Inr] have "\<not> m" .
  moreover from mask_row_all_ones [of cb row m] Inr assms(2) have "nat cb \<le> length row" by simp
  ultimately show ?thesis using Inr assms(3) by simp
qed

lemma collect_all_Inr: "\<forall>z \<in> set zs. f z = Inr (g z) \<Longrightarrow> collect (map f zs) = Inr (map g zs)"
  by (induction zs) simp_all

lemma collect_first_Inl: "zs \<noteq> [] \<Longrightarrow> \<forall>z \<in> set zs. f z = Inl e \<Longrightarrow> collect (map f zs) = Inl e"
  by (cases zs) simp_all

lemma compute_mask_marked:
  assumes "marked inputs_raw" and "3 \<le> cb" and "has_shape B T (3 + D) inputs_raw"
    and "0 < B" and "0 < T"
  shows "compute_mask cb inputs_raw
           = (if nat cb \<le> 3 + D then Inr (replicate B (replicate T False)) else Inl IndexError)"
proof -
  have row: "mask_row cb row = (if nat cb \<le> 3 + D then Inr False else Inl IndexError)"
    if "rows \<in> set inputs_raw" "row \<in> set rows" for rows row
    using that assms(1,3) mask_row_marked [OF _ assms(2), of row D]
    by (simp add: marked_def has_shape_def)
  show ?thesis
  proof (cases "nat cb \<le> 3 + D")
    case True
    have "collect (map (mask_row cb) rows) = Inr (map (\<lambda>_. False) rows)"
      if "rows \<in> set inputs_raw" for rows
      using row [OF that] True by (intro collect_all_Inr) simp
    moreover have "map (\<lambda>_. False) rows = replicate T False" if "rows \<in> set inputs_raw" for rows
      using that assms(3) by (simp add: has_shape_def map_replicate_const)
    ultimately have "collect (map (\<lambda>rows. collect (map (mask_row cb) rows)) inputs_raw)
                       = Inr (map (\<lambda>_. replicate T False) inputs_raw)"
      by (intro collect_all_Inr) simp
    moreover have "map (\<lambda>_. replicate T False) inputs_raw = replicate B (replicate T False)"
      using assms(3) by (simp add: has_shape_def map_replicate_const)
    ultimately show ?thesis using True by (simp add: compute_mask_def)
  next
    case False
    have "collect (map (mask_row cb) rows) = Inl IndexError" if "rows \<in> set inputs_raw" for rows
    proof (rule collect_first_Inl)
      show "rows \<noteq> []" using that assms(3,5) by (auto simp: has_shape_def)
      show "\<forall>z \<in> set rows. mask_row cb z = Inl IndexError" using row [OF that] False by simp
    qed
    moreover have "inputs_raw \<noteq> []" using assms(3,4) by (auto simp: has_shape_def)
    ultimately have "collect (map (\<lambda>rows. collect (map (mask_row cb) rows)) inputs_raw)
                       = Inl IndexError"
      by (intro collect_first_Inl) simp_all
    with False show ?thesis by (simp add: compute_mask_def)
  qed
qed


lemma scatter_empty_mask:
  assumes "has_shape B R D target" and "length buf = B" and "0 < B" and "2 \<le> R"
    and "filter id mask0 = []"
  shows "scatter mask0 buf target = Inl RuntimeError"
proof -
  from assms(1,2) have bc: "bcast (length buf) target = Some target"
    by (simp add: bcast_def has_shape_def)
  have "zip buf target \<noteq> []"
    using assms(1-3) by (cases buf; cases target) (auto simp: has_shape_def)
  moreover have "\<forall>z \<in> set (zip buf target).
      (\<lambda>(rows, vals).
         (case bcast (length (filter id mask0)) vals of
            None \<Rightarrow> Inl RuntimeError
          | Some vs \<Rightarrow>
              (case scatter_rows mask0 rows vs of
                 None \<Rightarrow> Inl RuntimeError
               | Some out \<Rightarrow> Inr out))) z = Inl RuntimeError"
  proof
    fix z assume zin: "z \<in> set (zip buf target)"
    obtain rows vals where z: "z = (rows, vals)" by (cases z)
    with zin have "vals \<in> set target" by (auto dest: set_zip_rightD)
    with assms(1,4) have "2 \<le> length vals" by (simp add: has_shape_def)
    then have "bcast (length (filter id mask0)) vals = None"
      by (auto simp: bcast_def assms(5))
    with z show "(\<lambda>(rows, vals).
         (case bcast (length (filter id mask0)) vals of
            None \<Rightarrow> Inl RuntimeError
          | Some vs \<Rightarrow>
              (case scatter_rows mask0 rows vs of
                 None \<Rightarrow> Inl RuntimeError
               | Some out \<Rightarrow> Inr out))) z = Inl RuntimeError"
      by simp
  qed
  ultimately show ?thesis
    unfolding scatter_def bc option.case by (rule collect_first_Inl)
qed

lemma draws_valid:
  assumes "valid_config p"
  shows "\<exists>nb la lb.
     randint (num_subseq_min p) (num_subseq_max p + 1) (draw_count d) = Inr nb
   \<and> randint_array (min_sequence_length p) (max_sequence_length p + 1) nb (draw_len_a d) = Inr la
   \<and> randint_array (min_sequence_length p) (max_sequence_length p + 1) nb (draw_len_b d) = Inr lb"
proof -
  from assms have r: "num_subseq_min p < num_subseq_max p + 1"
    "min_sequence_length p < max_sequence_length p + 1" "1 \<le> num_subseq_min p"
    by (simp_all add: valid_config_def)
  then obtain nb where nb: "randint (num_subseq_min p) (num_subseq_max p + 1) (draw_count d) = Inr nb"
    by (simp add: randint_def)
  with r(3) have "0 < nb" using randint_range [OF nb] by simp
  with r(2) nb show ?thesis by (simp add: randint_array_def)
qed

lemma generate_batch_raises:
  assumes v: "valid_config p"
  shows "generate_batch p d
           = Inl (if control_bits p \<le> 3 + data_bits p then RuntimeError else IndexError)"
proof -
  from draws_valid [OF v] obtain nb la lb where
    dr: "randint (num_subseq_min p) (num_subseq_max p + 1) (draw_count d) = Inr nb"
      "randint_array (min_sequence_length p) (max_sequence_length p + 1) nb (draw_len_a d) = Inr la"
      "randint_array (min_sequence_length p) (max_sequence_length p + 1) nb (draw_len_b d) = Inr lb"
    by blast
  define T where "T = nat (2 * sum_list la + 2 * sum_list lb + nb + 1)"
  define R where "R = nat (sum_list lb + sum_list la)"
  let ?B = "nat (batch_size p)" and ?D = "nat (data_bits p)"
  from assembled_valid [OF v dr] obtain x y inputs_raw target where
    a: "sample_subsequences p d = Inr (x, y)" "assemble p x y = Inr (inputs_raw, target)"
      "has_shape ?B T (3 + ?D) inputs_raw" "marked inputs_raw" "has_shape ?B R ?D target"
      "2 \<le> sum_list lb + sum_list la"
    unfolding T_def R_def by blast
  from v have c: "3 \<le> control_bits p" "0 < ?B" "1 \<le> data_bits p"
    by (simp_all add: valid_config_def)
  from a(6) have R: "2 \<le> R" by (simp add: R_def)
  from sample_valid [OF v dr] have "1 \<le> nb" by blast
  with a(6) have T: "0 < T" by (simp add: T_def)
  have cbd: "nat (control_bits p) \<le> 3 + ?D \<longleftrightarrow> control_bits p \<le> 3 + data_bits p"
    using c(1,3) by linarith
  note cm = compute_mask_marked [OF a(4) c(1) a(3) c(2) T]
  have g: "generate_batch p d = reconcile (control_bits p) inputs_raw target"
    by (simp add: generate_batch_def a(1,2))
  show ?thesis
  proof (cases "control_bits p \<le> 3 + data_bits p")
    case True
    with cm cbd have m: "compute_mask (control_bits p) inputs_raw
                           = Inr (replicate ?B (replicate T False))"
      by simp
    from c(2) obtain k where k: "?B = Suc k" by (cases ?B) auto
    have "scatter (replicate T False)
            (zeros_like (map (map (slice_from (control_bits p)))
               (map (reset_ctrl (control_bits p) (replicate T False)) inputs_raw))) target
          = Inl RuntimeError"
      using a(5) _ c(2) R
    proof (rule scatter_empty_mask)
      show "length (zeros_like (map (map (slice_from (control_bits p)))
               (map (reset_ctrl (control_bits p) (replicate T False)) inputs_raw))) = ?B"
        using a(3) by (simp add: zeros_like_def has_shape_def)
      show "filter id (replicate T False) = []" by simp
    qed
    then have "reconcile (control_bits p) inputs_raw target = Inl RuntimeError"
      by (simp add: reconcile_def m k Let_def)
    with g True show ?thesis by simp
  next
    case False
    with cm cbd have "compute_mask (control_bits p) inputs_raw = Inl IndexError" by simp
    then have "reconcile (control_bits p) inputs_raw target = Inl IndexError"
      by (simp add: reconcile_def)
    with g False show ?thesis by simp
  qed
qed

end
